theory Spec2Isabelle
  imports Main "HOL-Library.Stream"
begin

section \<open>Textbook RSA: a shallow embedding of \<^verbatim>\<open>main.py\<close>\<close>

text \<open>
  Python integers are unbounded, so every number of the program is an \<^typ>\<open>int\<close>.
  Python's \<^verbatim>\<open>%\<close> and \<^verbatim>\<open>//\<close> are floor division and the remainder with the sign of
  the divisor, which is what \<open>mod\<close> and \<open>div\<close> are on \<^typ>\<open>int\<close>; the one
  difference, a zero divisor, is written out as \<open>ZeroDivisionError\<close> wherever the program
  can reach it. The program defines no exception of its own and raises none explicitly:
  the only failures are the ones of the operators and library calls it uses, and the two
  limits of the interpreter that its code can meet: the depth of recursion
  (\<open>RecursionError\<close>) and the length of an integer turned into text (\<open>ValueError\<close>).
\<close>

datatype error = ZeroDivisionError | ValueError | RecursionError

subsection \<open>The random source\<close>

text \<open>
  The module \<^verbatim>\<open>random\<close> is the standard library's, not code of the program. It is
  modelled as an infinite stream of raw draws that is passed along explicitly; each call
  consumes one draw and reduces it into the range the call asks for. Every value of the
  range is the image of some raw draw, so quantifying over all streams covers every
  outcome of the real generator. \<^verbatim>\<open>randint(a, b)\<close> raises \<^verbatim>\<open>ValueError\<close> on an empty
  range, \<^verbatim>\<open>getrandbits(k)\<close> on a negative \<^verbatim>\<open>k\<close> (and returns 0 for \<^verbatim>\<open>k = 0\<close>).
\<close>

type_synonym rng = "nat stream"

definition randint :: "int \<Rightarrow> int \<Rightarrow> rng \<Rightarrow> error + int \<times> rng" where
  "randint a b rng =
     (if b < a then Inl ValueError
      else Inr (a + int (shd rng) mod (b - a + 1), stl rng))"

definition getrandbits :: "int \<Rightarrow> rng \<Rightarrow> error + int \<times> rng" where
  "getrandbits k rng =
     (if k < 0 then Inl ValueError
      else Inr (int (shd rng) mod 2 ^ nat k, stl rng))"

subsection \<open>Characters\<close>

text \<open>
  A Python string is a sequence of code points between 0 and \<^verbatim>\<open>0x10FFFF\<close> = 1114111.
  \<^verbatim>\<open>ord\<close> reads the code point of a character, \<^verbatim>\<open>chr\<close> builds the character and raises
  \<^verbatim>\<open>ValueError\<close> outside that range.
\<close>

typedef pychar = "{c :: int. 0 \<le> c \<and> c \<le> 1114111}"
  by (rule exI [of _ 0]) simp

definition ord :: "pychar \<Rightarrow> int" where
  "ord c = Rep_pychar c"

definition chr :: "int \<Rightarrow> error + pychar" where
  "chr v = (if 0 \<le> v \<and> v \<le> 1114111 then Inr (Abs_pychar v) else Inl ValueError)"

definition placeholder :: pychar where
  "placeholder = Abs_pychar 63"

subsection \<open>Fast modular exponentiation\<close>

text \<open>
  The \<^verbatim>\<open>while exponent > 0\<close> loop of \<^verbatim>\<open>modular_exponentiation\<close>, on the variables
  \<^verbatim>\<open>result\<close>, \<^verbatim>\<open>base\<close> and \<^verbatim>\<open>exponent\<close>. The function reduces
  \<^verbatim>\<open>base % modulus\<close> before the loop, which fails for a zero modulus whatever the exponent.
\<close>

function modular_exponentiation_loop :: "int \<Rightarrow> int \<Rightarrow> int \<Rightarrow> int \<Rightarrow> int" where
  "modular_exponentiation_loop result base exponent modulus =
     (if exponent > 0 then
        modular_exponentiation_loop
          (if exponent mod 2 = 1 then (result * base) mod modulus else result)
          ((base * base) mod modulus) (exponent div 2) modulus
      else result)"
  by pat_completeness auto
termination
  by (relation "measure (\<lambda>(r, b, e, m). nat e)") auto

declare modular_exponentiation_loop.simps [simp del]

definition modular_exponentiation :: "int \<Rightarrow> int \<Rightarrow> int \<Rightarrow> error + int" where
  "modular_exponentiation base exponent modulus =
     (if modulus = 0 then Inl ZeroDivisionError
      else Inr (modular_exponentiation_loop 1 (base mod modulus) exponent modulus))"

subsection \<open>Miller-Rabin\<close>

text \<open>
  \<^verbatim>\<open>while d % 2 == 0: r += 1; d //= 2\<close>. The loop does not end for \<^verbatim>\<open>d = 0\<close>, so it
  is a partial function: \<open>None\<close> is "does not return".
\<close>

partial_function (option) is_prime_decompose :: "int \<Rightarrow> int \<Rightarrow> (int \<times> int) option" where
  "is_prime_decompose r d =
     (if d mod 2 = 0 then is_prime_decompose (r + 1) (d div 2) else Some (r, d))"

declare is_prime_decompose.simps [code]

text \<open>
  The inner \<^verbatim>\<open>for _ in range(r - 1)\<close> with its \<^verbatim>\<open>else\<close>: \<open>Inr True\<close> when the loop
  leaves by \<^verbatim>\<open>break\<close>, \<open>Inr False\<close> when it runs out and the \<^verbatim>\<open>else\<close> branch
  returns \<^verbatim>\<open>False\<close> from \<^verbatim>\<open>is_prime\<close>.
\<close>

fun is_prime_squarings :: "nat \<Rightarrow> int \<Rightarrow> int \<Rightarrow> error + bool" where
  "is_prime_squarings 0 x n = Inr False"
| "is_prime_squarings (Suc j) x n =
     (case modular_exponentiation x 2 n of
        Inl err \<Rightarrow> Inl err
      | Inr x' \<Rightarrow> if x' = n - 1 then Inr True else is_prime_squarings j x' n)"

text \<open>The outer \<^verbatim>\<open>for _ in range(k)\<close>, one random witness per round.\<close>

fun is_prime_rounds :: "nat \<Rightarrow> int \<Rightarrow> int \<Rightarrow> int \<Rightarrow> rng \<Rightarrow> error + bool \<times> rng" where
  "is_prime_rounds 0 n r d rng = Inr (True, rng)"
| "is_prime_rounds (Suc k) n r d rng =
     (case randint 2 (n - 2) rng of
        Inl err \<Rightarrow> Inl err
      | Inr (a, rng') \<Rightarrow>
          (case modular_exponentiation a d n of
             Inl err \<Rightarrow> Inl err
           | Inr x \<Rightarrow>
               if x = 1 \<or> x = n - 1 then is_prime_rounds k n r d rng'
               else
                 (case is_prime_squarings (nat (r - 1)) x n of
                    Inl err \<Rightarrow> Inl err
                  | Inr found \<Rightarrow>
                      if found then is_prime_rounds k n r d rng'
                      else Inr (False, rng'))))"

definition is_prime :: "int \<Rightarrow> int \<Rightarrow> rng \<Rightarrow> (error + bool \<times> rng) option" where
  "is_prime n k rng =
     (if n \<le> 1 then Some (Inr (False, rng))
      else if n \<le> 3 then Some (Inr (True, rng))
      else if n mod 2 = 0 then Some (Inr (False, rng))
      else
        (case is_prime_decompose 0 (n - 1) of
           None \<Rightarrow> None
         | Some (r, d) \<Rightarrow> Some (is_prime_rounds (nat k) n r d rng)))"

subsection \<open>Prime generation\<close>

text \<open>\<^verbatim>\<open>while True\<close>: draw a candidate, return it when \<^verbatim>\<open>is_prime(candidate)\<close> (five rounds).\<close>

partial_function (option) generate_prime :: "int \<Rightarrow> rng \<Rightarrow> (error + int \<times> rng) option" where
  "generate_prime bits rng =
     (case getrandbits bits rng of
        Inl err \<Rightarrow> Some (Inl err)
      | Inr (candidate, rng1) \<Rightarrow>
          (case is_prime candidate 5 rng1 of
             None \<Rightarrow> None
           | Some (Inl err) \<Rightarrow> Some (Inl err)
           | Some (Inr (passed, rng2)) \<Rightarrow>
               if passed then Some (Inr (candidate, rng2))
               else generate_prime bits rng2))"

declare generate_prime.simps [code]

subsection \<open>Extended Euclidean algorithm\<close>

text \<open>
  \<^verbatim>\<open>extended_gcd\<close> calls itself once for every step of Euclid's algorithm, and each call
  takes a frame of the interpreter. The interpreter allows \<^verbatim>\<open>sys.getrecursionlimit()\<close>
  frames (1000 unless changed, and the program never changes it) and raises
  \<^verbatim>\<open>RecursionError\<close> on the call that would go beyond. The first argument of the model,
  \<open>frames\<close>, is the number of frames still free when the function is called.
\<close>

fun extended_gcd :: "nat \<Rightarrow> int \<Rightarrow> int \<Rightarrow> error + int \<times> int \<times> int" where
  "extended_gcd 0 a b = Inl RecursionError"
| "extended_gcd (Suc frames) a b =
     (if b = 0 then Inr (a, 1, 0)
      else
        (case extended_gcd frames b (a mod b) of
           Inl err \<Rightarrow> Inl err
         | Inr (gcd_, x1, y1) \<Rightarrow>
             let x = y1;
                 y = x1 - (a div b) * y1
             in Inr (gcd_, x, y)))"

text \<open>
  Python's formatting of an integer inside an f-string: decimal digits, \<^verbatim>\<open>-\<close> in front
  of a negative number. CPython refuses to convert an integer of more than
  \<^verbatim>\<open>sys.get_int_max_str_digits()\<close> decimal digits (4300 unless changed, and the program
  never changes it) and raises \<^verbatim>\<open>ValueError\<close>; the sign does not count.
\<close>

function str_nat :: "nat \<Rightarrow> string" where
  "str_nat n =
     (if n < 10 then [char_of (48 + n)]
      else str_nat (n div 10) @ [char_of (48 + n mod 10)])"
  by pat_completeness auto
termination
  by (relation "measure id") auto

declare str_nat.simps [simp del]

definition int_max_str_digits :: nat where
  "int_max_str_digits = 4300"

definition str_int :: "int \<Rightarrow> error + string" where
  "str_int i =
     (let digits = str_nat (nat \<bar>i\<bar>)
      in if int_max_str_digits < length digits then Inl ValueError
         else Inr (if i < 0 then CHR ''-'' # digits else digits))"

text \<open>The two f-strings of \<^verbatim>\<open>explain_extended_gcd\<close>; each formats its operands from left
  to right and fails when one of them cannot be converted.\<close>

definition base_case_step :: "int \<Rightarrow> int \<Rightarrow> error + string" where
  "base_case_step a b =
     (case str_int a of
        Inl err \<Rightarrow> Inl err
      | Inr sa \<Rightarrow>
          (case str_int b of
             Inl err \<Rightarrow> Inl err
           | Inr sb \<Rightarrow> Inr (''Base case: gcd('' @ sa @ '', '' @ sb @ '') = '' @ sa)))"

definition recursive_step :: "int \<Rightarrow> int \<Rightarrow> int \<Rightarrow> int \<Rightarrow> error + string" where
  "recursive_step a b x y =
     (case str_int a of
        Inl err \<Rightarrow> Inl err
      | Inr sa \<Rightarrow>
          (case str_int b of
             Inl err \<Rightarrow> Inl err
           | Inr sb \<Rightarrow>
               (case str_int x of
                  Inl err \<Rightarrow> Inl err
                | Inr sx \<Rightarrow>
                    (case str_int y of
                       Inl err \<Rightarrow> Inl err
                     | Inr sy \<Rightarrow>
                         Inr (''gcd('' @ sa @ '', '' @ sb @ ''): x = '' @ sx @
                              '', y = '' @ sy)))))"

text \<open>The same recursion with the list of steps: the base case formats its step before it
  returns, every other call formats its step after the call below it has returned.\<close>

fun explain_extended_gcd ::
  "nat \<Rightarrow> int \<Rightarrow> int \<Rightarrow> error + int \<times> int \<times> int \<times> string list" where
  "explain_extended_gcd 0 a b = Inl RecursionError"
| "explain_extended_gcd (Suc frames) a b =
     (if b = 0 then
        (case base_case_step a b of
           Inl err \<Rightarrow> Inl err
         | Inr step \<Rightarrow> Inr (a, 1, 0, [step]))
      else
        (case explain_extended_gcd frames b (a mod b) of
           Inl err \<Rightarrow> Inl err
         | Inr (gcd_, x1, y1, sub_steps) \<Rightarrow>
             let x = y1;
                 y = x1 - (a div b) * y1
             in
               (case recursive_step a b x y of
                  Inl err \<Rightarrow> Inl err
                | Inr step \<Rightarrow> Inr (gcd_, x, y, sub_steps @ [step]))))"

subsection \<open>Key generation\<close>

text \<open>The \<^verbatim>\<open>while True\<close> of \<^verbatim>\<open>generate_rsa_keys\<close> that draws the public exponent.\<close>

partial_function (option) generate_rsa_keys_exponent ::
  "int \<Rightarrow> rng \<Rightarrow> (error + int \<times> rng) option" where
  "generate_rsa_keys_exponent phi rng =
     (case randint 2 (phi - 1) rng of
        Inl err \<Rightarrow> Some (Inl err)
      | Inr (e, rng') \<Rightarrow>
          if gcd e phi = 1 then Some (Inr (e, rng'))
          else generate_rsa_keys_exponent phi rng')"

declare generate_rsa_keys_exponent.simps [code]

text \<open>
  \<^verbatim>\<open>generate_rsa_keys\<close> returns the pair of keys; the model returns the random source
  as well. \<open>frames\<close> is the number of interpreter frames free for its call of
  \<^verbatim>\<open>explain_extended_gcd\<close>, whose failures end the call. What the function prints (two
  progress lines and the steps of \<^verbatim>\<open>explain_extended_gcd\<close>) is console output and is
  left out.
\<close>

definition generate_rsa_keys ::
  "nat \<Rightarrow> int \<Rightarrow> rng \<Rightarrow> (error + ((int \<times> int) \<times> (int \<times> int)) \<times> rng) option" where
  "generate_rsa_keys frames bits rng =
     (case generate_prime (bits div 2) rng of
        None \<Rightarrow> None
      | Some (Inl err) \<Rightarrow> Some (Inl err)
      | Some (Inr (p, rng1)) \<Rightarrow>
          (case generate_prime (bits div 2) rng1 of
             None \<Rightarrow> None
           | Some (Inl err) \<Rightarrow> Some (Inl err)
           | Some (Inr (q, rng2)) \<Rightarrow>
               let n = p * q;
                   phi = (p - 1) * (q - 1)
               in
                 (case generate_rsa_keys_exponent phi rng2 of
                    None \<Rightarrow> None
                  | Some (Inl err) \<Rightarrow> Some (Inl err)
                  | Some (Inr (e, rng3)) \<Rightarrow>
                      (case explain_extended_gcd frames e phi of
                         Inl err \<Rightarrow> Some (Inl err)
                       | Inr (gcd_, d, y, steps) \<Rightarrow>
                           if phi = 0 then Some (Inl ZeroDivisionError)
                           else
                             let d = d mod phi;
                                 d = (if d < 0 then d + phi else d)
                             in Some (Inr (((e, n), (d, n)), rng3))))))"

subsection \<open>Encryption and decryption\<close>

text \<open>The list comprehension of \<^verbatim>\<open>encrypt_rsa\<close>, element by element, in input order.\<close>

fun encrypt_rsa :: "pychar list \<Rightarrow> int \<times> int \<Rightarrow> error + int list" where
  "encrypt_rsa [] (e, n) = Inr []"
| "encrypt_rsa (char # message) (e, n) =
     (case modular_exponentiation (ord char) e n of
        Inl err \<Rightarrow> Inl err
      | Inr c \<Rightarrow>
          (case encrypt_rsa message (e, n) of
             Inl err \<Rightarrow> Inl err
           | Inr encrypted \<Rightarrow> Inr (c # encrypted)))"

text \<open>The \<^verbatim>\<open>for\<close> loop of \<^verbatim>\<open>decrypt_rsa\<close> appending to \<^verbatim>\<open>decrypted_chars\<close>; joining the
  characters gives the list itself.\<close>

fun decrypt_rsa_loop :: "int list \<Rightarrow> int \<Rightarrow> int \<Rightarrow> pychar list \<Rightarrow> error + pychar list" where
  "decrypt_rsa_loop [] d n decrypted_chars = Inr decrypted_chars"
| "decrypt_rsa_loop (char # ciphertext) d n decrypted_chars =
     (case modular_exponentiation char d n of
        Inl err \<Rightarrow> Inl err
      | Inr decrypted_value \<Rightarrow>
          if 0 \<le> decrypted_value \<and> decrypted_value \<le> 1114111 then
            (case chr decrypted_value of
               Inl err \<Rightarrow> Inl err
             | Inr c \<Rightarrow> decrypt_rsa_loop ciphertext d n (decrypted_chars @ [c]))
          else decrypt_rsa_loop ciphertext d n (decrypted_chars @ [placeholder]))"

definition decrypt_rsa :: "int list \<Rightarrow> int \<times> int \<Rightarrow> error + pychar list" where
  "decrypt_rsa ciphertext private_key =
     (case private_key of (d, n) \<Rightarrow> decrypt_rsa_loop ciphertext d n [])"

subsection \<open>Reference notions\<close>

text \<open>Primality of an integer, by trial division, so that it can be evaluated.\<close>

definition prime_number :: "int \<Rightarrow> bool" where
  "prime_number p \<longleftrightarrow> 1 < p \<and> (\<forall>m \<in> {2..<p}. \<not> m dvd p)"

section \<open>Properties\<close>

subsection \<open>The random source covers exactly the requested ranges\<close>

lemma randint_range:
  assumes "randint a b rng = Inr (v, rng')"
  shows "a \<le> v \<and> v \<le> b"
proof -
  from assms have ab: "a \<le> b" and v: "v = a + int (shd rng) mod (b - a + 1)"
    by (auto simp: randint_def split: if_splits)
  from ab have pos: "0 < b - a + 1" by simp
  have "0 \<le> int (shd rng) mod (b - a + 1)"
    using pos by (rule pos_mod_sign)
  moreover have "int (shd rng) mod (b - a + 1) < b - a + 1"
    using pos by (rule pos_mod_bound)
  ultimately show ?thesis using v by linarith
qed

lemma randint_reaches:
  "a \<le> v \<Longrightarrow> v \<le> b \<Longrightarrow> randint a b (nat (v - a) ## rng) = Inr (v, rng)"
  by (simp add: randint_def)

lemma getrandbits_range:
  assumes "getrandbits k rng = Inr (v, rng')"
  shows "0 \<le> v \<and> v < 2 ^ nat k"
  using assms by (auto simp: getrandbits_def split: if_splits)

lemma getrandbits_reaches:
  "0 \<le> k \<Longrightarrow> 0 \<le> v \<Longrightarrow> v < 2 ^ nat k \<Longrightarrow> getrandbits k (nat v ## rng) = Inr (v, rng)"
  by (simp add: getrandbits_def)

subsection \<open>Modular exponentiation\<close>

lemma modular_exponentiation_loop_nonpos:
  "exponent \<le> 0 \<Longrightarrow> modular_exponentiation_loop result base exponent modulus = result"
  by (subst modular_exponentiation_loop.simps) simp

lemma modular_exponentiation_loop_power:
  "0 \<le> r \<Longrightarrow> r < m \<Longrightarrow> modular_exponentiation_loop r b e m = (r * b ^ nat e) mod m"
proof (induction r b e m rule: modular_exponentiation_loop.induct)
  case (1 r b e m)
  show ?case
  proof (cases "e > 0")
    case False
    then show ?thesis using 1(2,3) by (simp add: modular_exponentiation_loop_nonpos)
  next
    case True
    let ?r' = "if e mod 2 = 1 then (r * b) mod m else r"
    have m: "0 < m" using 1(2,3) by simp
    have r': "0 \<le> ?r'" "?r' < m" using 1(2,3) m by simp_all
    have IH: "modular_exponentiation_loop ?r' ((b * b) mod m) (e div 2) m
                = (?r' * ((b * b) mod m) ^ nat (e div 2)) mod m"
      using 1(1)[OF True r'] .
    have e: "nat e = 2 * nat (e div 2) + nat (e mod 2)"
      using True by (simp add: nat_div_distrib nat_mod_distrib)
    have pw: "b ^ nat e = (b * b) ^ nat (e div 2) * b ^ nat (e mod 2)"
      by (subst e) (simp add: power_add power_mult power2_eq_square)
    have "(?r' * ((b * b) mod m) ^ nat (e div 2)) mod m = (?r' * (b * b) ^ nat (e div 2)) mod m"
      by (metis mod_mult_right_eq power_mod)
    also have "\<dots> = (r * b ^ nat e) mod m"
    proof (cases "e mod 2 = 1")
      case True
      then show ?thesis by (simp add: pw mod_mult_left_eq ac_simps)
    next
      case False
      then have "e mod 2 = 0" by presburger
      then show ?thesis using False by (simp add: pw)
    qed
    finally show ?thesis using IH True by (subst modular_exponentiation_loop.simps) simp
  qed
qed

lemma modular_exponentiation_power:
  assumes "0 \<le> exponent" and "1 < modulus"
  shows "modular_exponentiation base exponent modulus = Inr (base ^ nat exponent mod modulus)"
proof -
  have "modular_exponentiation_loop 1 (base mod modulus) exponent modulus
          = (1 * (base mod modulus) ^ nat exponent) mod modulus"
    using assms by (intro modular_exponentiation_loop_power) simp_all
  then show ?thesis
    using assms by (simp add: modular_exponentiation_def power_mod)
qed

lemma modular_exponentiation_loop_modulus_1:
  "0 < e \<Longrightarrow> modular_exponentiation_loop r b e 1 = 0"
proof (induction r b e "1 :: int" rule: modular_exponentiation_loop.induct)
  case (1 r b e)
  show ?case
  proof (cases "0 < e div 2")
    case True
    then show ?thesis
      using 1 by (subst modular_exponentiation_loop.simps) simp
  next
    case False
    with \<open>0 < e\<close> have "e = 1" by presburger
    then show ?thesis
      by (simp add: modular_exponentiation_loop_nonpos
            modular_exponentiation_loop.simps [of r b 1 1])
  qed
qed

text \<open>
  Claim C2. For every base, every exponent \<open>\<ge> 0\<close> and every modulus \<open>> 1\<close>,
  \<^verbatim>\<open>modular_exponentiation(base, exponent, modulus)\<close> returns
  \<open>base ^ exponent mod modulus\<close>, and the result lies in \<open>[0, modulus)\<close>.
\<close>

theorem modular_exponentiation_correct:
  assumes "0 \<le> exponent" and "1 < modulus"
  shows "\<exists>v. modular_exponentiation base exponent modulus = Inr v
           \<and> v = base ^ nat exponent mod modulus \<and> 0 \<le> v \<and> v < modulus"
  using assms by (simp add: modular_exponentiation_power)

theorem modular_exponentiation_correct_witness:
  "(0::int) \<le> 17 \<and> (1::int) < 3233
   \<and> (\<exists>v. modular_exponentiation 65 17 3233 = Inr v
         \<and> v = 65 ^ nat 17 mod 3233 \<and> 0 \<le> v \<and> v < 3233)"
  using modular_exponentiation_correct [of 17 3233 65] by simp

text \<open>
  Claim C6 says that \<^verbatim>\<open>modular_exponentiation\<close> fails with \<^verbatim>\<open>InvalidModulus\<close> for
  every modulus \<open>\<le> 1\<close> and with \<^verbatim>\<open>InvalidExponent\<close> for every negative exponent.
  The function checks nothing: with modulus 1, with a negative modulus and with a
  negative exponent it returns a number.
\<close>

theorem modular_exponentiation_invalid_counterexample:
  "modular_exponentiation 5 3 1 = Inr 0 \<and> modular_exponentiation 5 3 (- 7) = Inr (- 1)
   \<and> modular_exponentiation 2 (- 1) 7 = Inr 1"
  by code_simp

text \<open>
  Claim C6, as the code has it. A zero modulus fails with Python's \<^verbatim>\<open>ZeroDivisionError\<close>
  (raised by \<^verbatim>\<open>base % modulus\<close>); every other call returns a number: 1 when the exponent
  is \<open>\<le> 0\<close> (the loop body never runs), 0 when the modulus is 1 and the exponent is
  positive.
\<close>

theorem modular_exponentiation_no_validation:
  "(modulus = 0 \<longrightarrow> modular_exponentiation base exponent modulus = Inl ZeroDivisionError)
   \<and> (modulus \<noteq> 0 \<longrightarrow> (\<exists>v. modular_exponentiation base exponent modulus = Inr v))
   \<and> (modulus \<noteq> 0 \<and> exponent \<le> 0 \<longrightarrow> modular_exponentiation base exponent modulus = Inr 1)
   \<and> (modulus = 1 \<and> 0 < exponent \<longrightarrow> modular_exponentiation base exponent modulus = Inr 0)"
  by (simp add: modular_exponentiation_def modular_exponentiation_loop_nonpos
        modular_exponentiation_loop_modulus_1)

theorem modular_exponentiation_no_validation_witness:
  "modular_exponentiation 5 3 0 = Inl ZeroDivisionError
   \<and> (\<exists>v. modular_exponentiation 5 3 (- 7) = Inr v)
   \<and> modular_exponentiation 2 (- 1) 7 = Inr 1
   \<and> modular_exponentiation 5 3 1 = Inr 0"
  using modular_exponentiation_no_validation [of 0 5 3]
    modular_exponentiation_no_validation [of "- 7" 5 3]
    modular_exponentiation_no_validation [of 7 2 "- 1"]
    modular_exponentiation_no_validation [of 1 5 3]
  by simp

subsection \<open>Extended Euclid\<close>

lemma extended_gcd_error:
  "extended_gcd frames a b = Inl err \<Longrightarrow> err = RecursionError"
  by (induction frames arbitrary: a b)
     (auto simp: Let_def split: if_splits sum.splits prod.splits)

lemma extended_gcd_base: "0 < frames \<Longrightarrow> extended_gcd frames a 0 = Inr (a, 1, 0)"
  by (cases frames) simp_all

lemma extended_gcd_returns:
  "nat \<bar>b\<bar> < frames \<Longrightarrow> \<exists>t. extended_gcd frames a b = Inr t"
proof (induction frames arbitrary: a b)
  case 0
  then show ?case by simp
next
  case (Suc frames)
  show ?case
  proof (cases "b = 0")
    case True
    then show ?thesis by simp
  next
    case False
    then have "\<bar>a mod b\<bar> < \<bar>b\<bar>" by (rule abs_mod_less)
    with Suc.prems have "nat \<bar>a mod b\<bar> < frames" by simp
    from Suc.IH [OF this] obtain t where "extended_gcd frames b (a mod b) = Inr t" by blast
    with False show ?thesis by (cases t) (simp add: Let_def)
  qed
qed

lemma extended_gcd_bezout:
  "extended_gcd frames a b = Inr (g, x, y) \<Longrightarrow> a * x + b * y = g"
proof (induction frames arbitrary: a b g x y)
  case 0
  then show ?case by simp
next
  case (Suc frames)
  show ?case
  proof (cases "b = 0")
    case True
    with Suc.prems show ?thesis by simp
  next
    case False
    with Suc.prems obtain x1 where rec: "extended_gcd frames b (a mod b) = Inr (g, x1, x)"
      and y: "y = x1 - (a div b) * x"
      by (auto simp: Let_def split: sum.splits prod.splits)
    from Suc.IH [OF rec] have IH: "b * x1 + (a mod b) * x = g" .
    have "a * x + b * (x1 - (a div b) * x) = b * x1 + (a - b * (a div b)) * x"
      by (simp add: algebra_simps)
    also have "a - b * (a div b) = a mod b"
      by (simp add: minus_mult_div_eq_mod)
    finally show ?thesis using IH y by simp
  qed
qed

lemma extended_gcd_fst_nonneg:
  "0 \<le> a \<Longrightarrow> 0 \<le> b \<Longrightarrow> extended_gcd frames a b = Inr (g, x, y) \<Longrightarrow> g = gcd a b"
proof (induction frames arbitrary: a b g x y)
  case 0
  then show ?case by simp
next
  case (Suc frames)
  show ?case
  proof (cases "b = 0")
    case True
    with Suc.prems show ?thesis by simp
  next
    case False
    with Suc.prems(2) have b: "0 < b" by simp
    then have m: "0 \<le> a mod b" by simp
    from Suc.prems(3) False obtain x1 where "extended_gcd frames b (a mod b) = Inr (g, x1, x)"
      by (auto simp: Let_def split: sum.splits prod.splits)
    with Suc.IH [of b "a mod b" g x1 x] b m have "g = gcd b (a mod b)" by simp
    also have "\<dots> = gcd a b" by (metis gcd.commute gcd_red_int)
    finally show ?thesis .
  qed
qed

lemma extended_gcd_fst:
  assumes "0 \<le> b" and "extended_gcd frames a b = Inr (g, x, y)"
  shows "g = (if a < 0 \<and> b = 0 then - gcd a b else gcd a b)"
proof (cases frames)
  case 0
  with assms(2) show ?thesis by simp
next
  case (Suc f)
  show ?thesis
  proof (cases "b = 0")
    case True
    with assms(2) Suc show ?thesis by auto
  next
    case False
    with assms(1) have b: "0 < b" by simp
    from assms(2) Suc False obtain x1 where "extended_gcd f b (a mod b) = Inr (g, x1, x)"
      by (auto simp: Let_def split: sum.splits prod.splits)
    with b have "g = gcd b (a mod b)"
      by (intro extended_gcd_fst_nonneg [of b "a mod b" f g x1 x]) simp_all
    also have "\<dots> = gcd a b" by (metis gcd.commute gcd_red_int)
    finally show ?thesis using False by simp
  qed
qed

text \<open>
  Claim C3 says that for every \<open>a\<close> and every \<open>b \<ge> 0\<close> the first component of
  \<^verbatim>\<open>extended_gcd(a, b)\<close> is \<open>gcd a b\<close>, as the docstring does (``Returns gcd(a, b)'').
  For a negative \<open>a\<close> and \<open>b = 0\<close> the base case returns \<open>a\<close> itself, which is negative,
  while the recursive path returns the non-negative gcd for the same \<open>a\<close>.
\<close>

theorem extended_gcd_negative_base_case:
  "extended_gcd 990 (- 5) 0 = Inr (- 5, 1, 0) \<and> gcd (- 5 :: int) 0 = 5
   \<and> extended_gcd 990 (- 5) 10 = Inr (5, 1, 1) \<and> gcd (- 5 :: int) 10 = 5"
proof -
  have "extended_gcd 990 (- 5) 0 = Inr (- 5, 1, 0)"
    by (rule extended_gcd_base) simp
  moreover have "extended_gcd 990 (- 5) 10 = Inr (5, 1, 1)" by code_simp
  moreover have "gcd (- 5 :: int) 10 = 5" by code_simp
  ultimately show ?thesis by simp
qed

subsection \<open>The diagnostic variant\<close>

lemma str_nat_nonempty: "str_nat n \<noteq> []"
  by (subst str_nat.simps) simp

lemma str_nat_length: "10 ^ k \<le> n \<Longrightarrow> k < length (str_nat n)"
proof (induction k arbitrary: n)
  case 0
  show ?case using str_nat_nonempty [of n] by simp
next
  case (Suc k)
  have "(1::nat) \<le> 10 ^ k" by simp
  then have "(10::nat) \<le> 10 ^ Suc k" by simp
  with Suc.prems have n: "\<not> n < 10" by linarith
  from Suc.prems have "10 ^ k * 10 \<le> n" by (simp add: mult.commute)
  then have "10 ^ k \<le> n div 10" by (simp add: less_eq_div_iff_mult_less_eq)
  then have "k < length (str_nat (n div 10))" by (rule Suc.IH)
  then show ?case using n by (subst str_nat.simps) simp
qed

lemma str_int_error: "str_int i = Inl err \<Longrightarrow> err = ValueError"
  by (auto simp: str_int_def Let_def split: if_splits)

lemma str_int_too_long:
  assumes "10 ^ int_max_str_digits \<le> \<bar>i\<bar>"
  shows "str_int i = Inl ValueError"
proof -
  have "int (10 ^ int_max_str_digits) \<le> \<bar>i\<bar>" using assms by simp
  then have "10 ^ int_max_str_digits \<le> nat \<bar>i\<bar>" by linarith
  then have "int_max_str_digits < length (str_nat (nat \<bar>i\<bar>))" by (rule str_nat_length)
  then show ?thesis by (simp add: str_int_def Let_def)
qed

lemma base_case_step_error: "base_case_step a b = Inl err \<Longrightarrow> err = ValueError"
  by (auto simp: base_case_step_def dest: str_int_error split: sum.splits)

lemma recursive_step_error: "recursive_step a b x y = Inl err \<Longrightarrow> err = ValueError"
  by (auto simp: recursive_step_def dest: str_int_error split: sum.splits)

lemma explain_extended_gcd_base_too_long:
  assumes "0 < frames" and "10 ^ int_max_str_digits \<le> \<bar>a\<bar>"
  shows "explain_extended_gcd frames a 0 = Inl ValueError"
proof -
  from assms(2) have "str_int a = Inl ValueError" by (rule str_int_too_long)
  then have "base_case_step a 0 = Inl ValueError" by (simp add: base_case_step_def)
  with assms(1) show ?thesis by (cases frames) simp_all
qed

lemma explain_extended_gcd_cases:
  "(extended_gcd frames a b = Inl RecursionError
      \<and> explain_extended_gcd frames a b = Inl RecursionError)
   \<or> (\<exists>g x y. extended_gcd frames a b = Inr (g, x, y)
        \<and> (explain_extended_gcd frames a b = Inl ValueError
             \<or> (\<exists>steps. explain_extended_gcd frames a b = Inr (g, x, y, steps))))"
proof (induction frames arbitrary: a b)
  case 0
  show ?case by simp
next
  case (Suc frames)
  show ?case
  proof (cases "b = 0")
    case True
    show ?thesis
    proof (cases "base_case_step a b")
      case (Inl err)
      then have "err = ValueError" by (rule base_case_step_error)
      with Inl True show ?thesis by simp
    next
      case (Inr step)
      with True show ?thesis by simp
    qed
  next
    case False
    from Suc.IH [of b "a mod b"] show ?thesis
    proof (elim disjE conjE exE)
      assume "extended_gcd frames b (a mod b) = Inl RecursionError"
        and "explain_extended_gcd frames b (a mod b) = Inl RecursionError"
      with False show ?thesis by simp
    next
      fix g x1 y1
      assume ext: "extended_gcd frames b (a mod b) = Inr (g, x1, y1)"
        and "explain_extended_gcd frames b (a mod b) = Inl ValueError"
      with False show ?thesis by (simp add: Let_def)
    next
      fix g x1 y1 sub_steps
      assume ext: "extended_gcd frames b (a mod b) = Inr (g, x1, y1)"
        and exp: "explain_extended_gcd frames b (a mod b) = Inr (g, x1, y1, sub_steps)"
      show ?thesis
      proof (cases "recursive_step a b y1 (x1 - (a div b) * y1)")
        case (Inl err)
        then have "err = ValueError" by (rule recursive_step_error)
        with Inl ext exp False show ?thesis by (simp add: Let_def)
      next
        case (Inr step)
        with ext exp False show ?thesis by (simp add: Let_def)
      qed
    qed
  qed
qed

lemma explain_extended_gcd_triple:
  assumes "explain_extended_gcd frames a b = Inr (g, x, y, steps)"
  shows "extended_gcd frames a b = Inr (g, x, y)"
  using explain_extended_gcd_cases [of frames a b] assms by auto

text \<open>
  Claim C9 says that the first three components of \<^verbatim>\<open>explain_extended_gcd(a, b)\<close> are
  the triple of \<^verbatim>\<open>extended_gcd(a, b)\<close> for every \<open>a\<close> and every \<open>b \<ge> 0\<close>. The steps are
  f-strings, and an operand of more than 4300 decimal digits cannot be formatted: for
  \<open>a = 10 ^ 4300\<close> and \<open>b = 0\<close> \<^verbatim>\<open>extended_gcd\<close> returns \<open>(a, 1, 0)\<close> and
  \<^verbatim>\<open>explain_extended_gcd\<close> fails with \<^verbatim>\<open>ValueError\<close>.
\<close>

theorem explain_extended_gcd_long_operand_counterexample:
  "extended_gcd 990 (10 ^ 4300) 0 = Inr (10 ^ 4300, 1, 0)
   \<and> explain_extended_gcd 990 (10 ^ 4300) 0 = Inl ValueError"
proof -
  have frames: "0 < (990 :: nat)" by simp
  have long: "(10 :: int) ^ int_max_str_digits \<le> \<bar>10 ^ 4300\<bar>"
    unfolding int_max_str_digits_def by (rule abs_ge_self)
  have "extended_gcd 990 (10 ^ 4300) 0 = Inr (10 ^ 4300, 1, 0)"
    using frames by (rule extended_gcd_base)
  moreover have "explain_extended_gcd 990 (10 ^ 4300) 0 = Inl ValueError"
    using frames long by (rule explain_extended_gcd_base_too_long)
  ultimately show ?thesis by (rule conjI)
qed

text \<open>
  Claim C9, as the code has it. Whenever \<^verbatim>\<open>explain_extended_gcd(a, b)\<close> returns, its
  first three components are the triple that \<^verbatim>\<open>extended_gcd(a, b)\<close> returns, and the two
  functions run out of interpreter frames (\<^verbatim>\<open>RecursionError\<close>) on the same calls. The
  steps are not free of effect: when \<^verbatim>\<open>extended_gcd(a, b)\<close> returns,
  \<^verbatim>\<open>explain_extended_gcd(a, b)\<close> returns the same triple or fails with the
  \<^verbatim>\<open>ValueError\<close> of formatting a number of more than 4300 digits.
\<close>

theorem explain_extended_gcd_same_result:
  "(\<forall>g x y steps. explain_extended_gcd frames a b = Inr (g, x, y, steps)
       \<longrightarrow> extended_gcd frames a b = Inr (g, x, y))
   \<and> (explain_extended_gcd frames a b = Inl RecursionError
        \<longleftrightarrow> extended_gcd frames a b = Inl RecursionError)
   \<and> (\<forall>g x y. extended_gcd frames a b = Inr (g, x, y)
       \<longrightarrow> explain_extended_gcd frames a b = Inl ValueError
            \<or> (\<exists>steps. explain_extended_gcd frames a b = Inr (g, x, y, steps)))"
  using explain_extended_gcd_cases [of frames a b] by auto

theorem explain_extended_gcd_same_result_witness:
  "explain_extended_gcd 990 3 8 = Inr (1, 3, - 1,
     [''Base case: gcd(1, 0) = 1'', ''gcd(2, 1): x = 0, y = 1'', ''gcd(3, 2): x = 1, y = -1'',
      ''gcd(8, 3): x = -1, y = 3'', ''gcd(3, 8): x = 3, y = -1''])
   \<and> extended_gcd 990 3 8 = Inr (1, 3, - 1)
   \<and> extended_gcd 2 3 8 = Inl RecursionError
   \<and> explain_extended_gcd 2 3 8 = Inl RecursionError"
proof -
  have run: "explain_extended_gcd 990 3 8 = Inr (1, 3, - 1,
     [''Base case: gcd(1, 0) = 1'', ''gcd(2, 1): x = 0, y = 1'', ''gcd(3, 2): x = 1, y = -1'',
      ''gcd(8, 3): x = -1, y = 3'', ''gcd(3, 8): x = 3, y = -1''])"
    by code_simp
  have short: "extended_gcd 2 3 8 = Inl RecursionError" by code_simp
  from explain_extended_gcd_same_result [of 990 3 8] run
  have "extended_gcd 990 3 8 = Inr (1, 3, - 1)" by blast
  moreover from explain_extended_gcd_same_result [of 2 3 8] short
  have "explain_extended_gcd 2 3 8 = Inl RecursionError" by blast
  ultimately show ?thesis using run short by simp
qed

subsection \<open>Small cases of the primality test\<close>

text \<open>
  Claim C8. Whatever the number of rounds and the random draws, \<^verbatim>\<open>is_prime\<close> returns
  \<^verbatim>\<open>False\<close> for \<open>n \<le> 1\<close>, \<^verbatim>\<open>True\<close> for \<open>n = 2\<close> and \<open>n = 3\<close>, and \<^verbatim>\<open>False\<close> for
  every even \<open>n > 3\<close>; it draws nothing in these cases.
\<close>

theorem is_prime_small_cases:
  "(n \<le> 1 \<longrightarrow> is_prime n k rng = Some (Inr (False, rng)))
   \<and> (n = 2 \<or> n = 3 \<longrightarrow> is_prime n k rng = Some (Inr (True, rng)))
   \<and> (3 < n \<and> n mod 2 = 0 \<longrightarrow> is_prime n k rng = Some (Inr (False, rng)))"
  by (auto simp: is_prime_def)

theorem is_prime_small_cases_witness:
  "is_prime (- 7) 5 (sconst 0) = Some (Inr (False, sconst 0))
   \<and> is_prime 1 5 (sconst 0) = Some (Inr (False, sconst 0))
   \<and> is_prime 2 5 (sconst 0) = Some (Inr (True, sconst 0))
   \<and> is_prime 3 5 (sconst 0) = Some (Inr (True, sconst 0))
   \<and> is_prime 100 5 (sconst 0) = Some (Inr (False, sconst 0))"
  using is_prime_small_cases [of "- 7" 5 "sconst 0"] is_prime_small_cases [of 1 5 "sconst 0"]
    is_prime_small_cases [of 2 5 "sconst 0"] is_prime_small_cases [of 3 5 "sconst 0"]
    is_prime_small_cases [of 100 5 "sconst 0"]
  by simp

subsection \<open>Decryption\<close>

lemma decrypt_rsa_loop_total:
  assumes "n \<noteq> 0"
  shows "\<exists>s. decrypt_rsa_loop ciphertext d n acc = Inr (acc @ s)
           \<and> length s = length ciphertext
           \<and> (\<forall>i < length ciphertext. \<exists>v.
                 modular_exponentiation (ciphertext ! i) d n = Inr v
                 \<and> (0 \<le> v \<and> v \<le> 1114111 \<longrightarrow> chr v = Inr (s ! i))
                 \<and> (\<not> (0 \<le> v \<and> v \<le> 1114111) \<longrightarrow> s ! i = placeholder))"
proof (induction ciphertext arbitrary: acc)
  case Nil
  then show ?case by simp
next
  case (Cons c cs)
  obtain v where v: "modular_exponentiation c d n = Inr v"
    using assms by (simp add: modular_exponentiation_def)
  define ch where "ch = (if 0 \<le> v \<and> v \<le> 1114111 then Abs_pychar v else placeholder)"
  have step: "decrypt_rsa_loop (c # cs) d n acc = decrypt_rsa_loop cs d n (acc @ [ch])"
    using v by (simp add: ch_def chr_def)
  from Cons.IH [of "acc @ [ch]"] obtain s where s:
    "decrypt_rsa_loop cs d n (acc @ [ch]) = Inr ((acc @ [ch]) @ s)"
    "length s = length cs"
    "\<forall>i < length cs. \<exists>v. modular_exponentiation (cs ! i) d n = Inr v
        \<and> (0 \<le> v \<and> v \<le> 1114111 \<longrightarrow> chr v = Inr (s ! i))
        \<and> (\<not> (0 \<le> v \<and> v \<le> 1114111) \<longrightarrow> s ! i = placeholder)"
    by blast
  have head: "(0 \<le> v \<and> v \<le> 1114111 \<longrightarrow> chr v = Inr ch)
              \<and> (\<not> (0 \<le> v \<and> v \<le> 1114111) \<longrightarrow> ch = placeholder)"
    by (simp add: ch_def chr_def)
  have "\<forall>i < length (c # cs). \<exists>v. modular_exponentiation ((c # cs) ! i) d n = Inr v
        \<and> (0 \<le> v \<and> v \<le> 1114111 \<longrightarrow> chr v = Inr ((ch # s) ! i))
        \<and> (\<not> (0 \<le> v \<and> v \<le> 1114111) \<longrightarrow> (ch # s) ! i = placeholder)"
  proof (intro allI impI)
    fix i assume i: "i < length (c # cs)"
    show "\<exists>v. modular_exponentiation ((c # cs) ! i) d n = Inr v
        \<and> (0 \<le> v \<and> v \<le> 1114111 \<longrightarrow> chr v = Inr ((ch # s) ! i))
        \<and> (\<not> (0 \<le> v \<and> v \<le> 1114111) \<longrightarrow> (ch # s) ! i = placeholder)"
    proof (cases i)
      case 0
      with v head show ?thesis by simp
    next
      case (Suc j)
      with i have "j < length cs" by simp
      with s(3) Suc show ?thesis by simp
    qed
  qed
  with step s(1,2) show ?case
    by (intro exI [of _ "ch # s"]) simp
qed

text \<open>
  Claim C7. For every private key \<open>(d, n)\<close> with \<open>n > 1\<close> and every ciphertext,
  \<^verbatim>\<open>decrypt_rsa\<close> returns a string with one character per element: the character with
  code point \<open>v = modular_exponentiation(c, d, n)\<close> when \<open>v\<close> lies in
  \<open>[0, 0x10FFFF]\<close>, the placeholder \<^verbatim>\<open>?\<close> otherwise. The theorem holds for any integers
  as ciphertext elements, the non-negative ones among them.
\<close>

theorem decrypt_rsa_total:
  assumes "1 < n"
  shows "\<exists>s. decrypt_rsa ciphertext (d, n) = Inr s
           \<and> length s = length ciphertext
           \<and> (\<forall>i < length ciphertext. \<exists>v.
                 modular_exponentiation (ciphertext ! i) d n = Inr v
                 \<and> (0 \<le> v \<and> v \<le> 1114111 \<longrightarrow> chr v = Inr (s ! i))
                 \<and> (\<not> (0 \<le> v \<and> v \<le> 1114111) \<longrightarrow> s ! i = placeholder))"
proof -
  from assms have "n \<noteq> 0" by simp
  from decrypt_rsa_loop_total [OF this, of ciphertext d "[]"]
  show ?thesis by (simp add: decrypt_rsa_def)
qed

theorem decrypt_rsa_total_witness:
  "(1::int) < 2000000
   \<and> (\<exists>s. decrypt_rsa [65, 1114112] (1, 2000000) = Inr s
         \<and> length s = length [65 :: int, 1114112]
         \<and> (\<forall>i < length [65 :: int, 1114112]. \<exists>v.
               modular_exponentiation ([65, 1114112] ! i) 1 2000000 = Inr v
               \<and> (0 \<le> v \<and> v \<le> 1114111 \<longrightarrow> chr v = Inr (s ! i))
               \<and> (\<not> (0 \<le> v \<and> v \<le> 1114111) \<longrightarrow> s ! i = placeholder)))"
proof -
  have n: "(1::int) < 2000000" by simp
  from decrypt_rsa_total [OF n, of "[65, 1114112]" 1] n show ?thesis by blast
qed

subsection \<open>Prime generation\<close>

text \<open>
  Claim C4 says that a value returned by \<^verbatim>\<open>generate_prime(bits)\<close> has its top bit (bit
  \<open>bits - 1\<close>) set. \<^verbatim>\<open>getrandbits(bits)\<close> draws from the whole of \<open>[0, 2 ^ bits)\<close> and the
  candidate is returned as soon as \<^verbatim>\<open>is_prime\<close> accepts it: with 8 bits and the draw 3, the
  function returns 3, which is below \<open>2 ^ 7\<close>.
\<close>

theorem generate_prime_short_candidate:
  "generate_prime 8 (3 ## sconst 0) = Some (Inr (3, sconst 0)) \<and> (3 :: int) < 2 ^ 7"
  by (subst generate_prime.simps) (simp add: getrandbits_def is_prime_def)

lemma is_prime_below_2: "n \<le> 1 \<Longrightarrow> is_prime n k rng = Some (Inr (False, rng))"
  by (simp add: is_prime_def)

lemma generate_prime_narrow_no_result:
  assumes "generate_prime bits rng = Some y"
  shows "\<not> (0 \<le> bits \<and> bits \<le> 1)"
proof (rule generate_prime.raw_induct
    [where P = "\<lambda>bits rng y. \<not> (0 \<le> bits \<and> bits \<le> 1)", OF _ assms])
  fix f :: "int \<Rightarrow> rng \<Rightarrow> (error + int \<times> rng) option" and bits rng y
  assume IH: "\<And>bits rng y. f bits rng = Some y \<Longrightarrow> \<not> (0 \<le> bits \<and> bits \<le> 1)"
  assume run: "(case getrandbits bits rng of
        Inl err \<Rightarrow> Some (Inl err)
      | Inr (candidate, rng1) \<Rightarrow>
          (case is_prime candidate 5 rng1 of
             None \<Rightarrow> None
           | Some (Inl err) \<Rightarrow> Some (Inl err)
           | Some (Inr (passed, rng2)) \<Rightarrow>
               if passed then Some (Inr (candidate, rng2))
               else f bits rng2)) = Some y"
  show "\<not> (0 \<le> bits \<and> bits \<le> 1)"
  proof
    assume bits: "0 \<le> bits \<and> bits \<le> 1"
    then have "bits = 0 \<or> bits = 1" by auto
    moreover have "int (shd rng) mod 2 < 2" by simp
    ultimately have cand: "int (shd rng) mod 2 ^ nat bits \<le> 1"
      by auto
    from run bits have "f bits (stl rng) = Some y"
      by (simp add: getrandbits_def is_prime_below_2 [OF cand])
    from IH [OF this] bits show False by simp
  qed
qed

lemma generate_prime_narrow:
  "0 \<le> bits \<Longrightarrow> bits \<le> 1 \<Longrightarrow> generate_prime bits rng = None"
  using generate_prime_narrow_no_result [of bits rng] by (cases "generate_prime bits rng") auto

lemma generate_prime_negative:
  "bits < 0 \<Longrightarrow> generate_prime bits rng = Some (Inl ValueError)"
  by (subst generate_prime.simps) (simp add: getrandbits_def)

text \<open>
  Claim C5 says that \<^verbatim>\<open>generate_rsa_keys\<close> fails with \<^verbatim>\<open>InvalidKeySize\<close> for a bit width
  below 4. The function has no such check: for 2 bits it asks \<^verbatim>\<open>generate_prime\<close> for a
  1-bit prime, every candidate is 0 or 1, and the call neither fails nor returns.
\<close>

theorem generate_rsa_keys_small_counterexample:
  "generate_rsa_keys 990 2 (sconst 0) = None \<and> generate_prime (2 div 2) (sconst 0) = None"
  by (simp add: generate_rsa_keys_def generate_prime_narrow)

text \<open>
  Claim C5, as the code has it. For a bit width below 4 \<^verbatim>\<open>generate_rsa_keys\<close> never
  returns a key pair: for \<open>0 \<le> bits < 4\<close> it does not return at all, whatever the random
  draws, and for \<open>bits < 0\<close> it fails with the \<^verbatim>\<open>ValueError\<close> of \<^verbatim>\<open>getrandbits\<close>.
\<close>

theorem generate_rsa_keys_small:
  assumes "bits < 4"
  shows "generate_rsa_keys frames bits rng = (if bits < 0 then Some (Inl ValueError) else None)"
proof (cases "bits < 0")
  case True
  then have "bits div 2 < 0" by simp
  then show ?thesis
    using True by (simp add: generate_rsa_keys_def generate_prime_negative)
next
  case False
  with assms have "0 \<le> bits div 2" "bits div 2 \<le> 1" by simp_all
  then show ?thesis
    using False by (simp add: generate_rsa_keys_def generate_prime_narrow)
qed

theorem generate_rsa_keys_small_witness:
  "(3::int) < 4 \<and> generate_rsa_keys 990 3 (sconst 0) = None
   \<and> (- 2 :: int) < 4 \<and> generate_rsa_keys 990 (- 2) (sconst 0) = Some (Inl ValueError)"
  using generate_rsa_keys_small [of 3 990 "sconst 0"]
    generate_rsa_keys_small [of "- 2" 990 "sconst 0"]
  by simp

subsection \<open>Primes: Euclid's lemma and Fermat's little theorem\<close>

lemma prime_number_gt_1: "prime_number p \<Longrightarrow> 1 < p"
  by (simp add: prime_number_def)

lemma prime_number_divisors:
  assumes "prime_number p" and "0 < m" and "m dvd p"
  shows "m = 1 \<or> m = p"
proof (rule ccontr)
  assume neither: "\<not> (m = 1 \<or> m = p)"
  from assms have "m \<le> p" by (intro zdvd_imp_le) (simp_all add: prime_number_def)
  with neither assms(2) have "m \<in> {2..<p}" by auto
  with assms(1,3) show False by (auto simp: prime_number_def)
qed

lemma prime_number_coprime:
  assumes "prime_number p" and "\<not> p dvd a"
  shows "coprime p a"
proof -
  have p: "0 < p" using assms(1) by (simp add: prime_number_def)
  have "0 \<le> gcd p a" by simp
  moreover have "gcd p a \<noteq> 0" using p by simp
  ultimately have "0 < gcd p a" by linarith
  then have "gcd p a = 1 \<or> gcd p a = p"
    using assms(1) by (intro prime_number_divisors) simp_all
  moreover have "gcd p a \<noteq> p"
  proof
    assume "gcd p a = p"
    then have "p dvd a" by (metis gcd_dvd2)
    with assms(2) show False by simp
  qed
  ultimately show ?thesis by (simp add: coprime_iff_gcd_eq_1)
qed

lemma prime_number_dvd_mult:
  assumes "prime_number p" and "p dvd a * b"
  shows "p dvd a \<or> p dvd b"
proof (cases "p dvd b")
  case True
  then show ?thesis by simp
next
  case False
  with assms(1) have "coprime p b" by (rule prime_number_coprime)
  with assms(2) show ?thesis by (simp add: coprime_dvd_mult_left_iff)
qed

lemma prime_number_dvd_binomial:
  assumes "prime_number p" and "0 < k" and "k < nat p"
  shows "p dvd int (nat p choose k)"
proof -
  have p: "0 < p" using assms(1) by (simp add: prime_number_def)
  have "k * (nat p choose k) = nat p * ((nat p - 1) choose (k - 1))"
    using assms(2) by (rule times_binomial_minus1_eq)
  then have "int k * int (nat p choose k) = int (nat p) * int ((nat p - 1) choose (k - 1))"
    by (metis of_nat_mult)
  then have "p dvd int k * int (nat p choose k)"
    using p by simp
  moreover have "\<not> p dvd int k"
    using assms(2,3) by (intro zdvd_not_zless) simp_all
  ultimately show ?thesis
    using prime_number_dvd_mult [OF assms(1)] by blast
qed

lemma prime_number_power_succ:
  assumes "prime_number p"
  shows "(a + 1) ^ nat p mod p = (a ^ nat p + 1) mod p"
proof -
  define P where "P = nat p"
  have P: "0 < P" "int P = p" using assms by (simp_all add: P_def prime_number_def)
  define c where "c k = int (P choose k) * a ^ k * 1 ^ (P - k)" for k
  have expand: "(a + 1) ^ P = (\<Sum>k\<le>P. c k)"
    by (simp add: binomial_ring c_def)
  have "(\<Sum>k\<le>P. c k) = c 0 + (\<Sum>k\<in>{..P} - {0}. c k)"
    by (rule sum.remove) simp_all
  also have "(\<Sum>k\<in>{..P} - {0}. c k) = c P + (\<Sum>k\<in>{..P} - {0} - {P}. c k)"
    using P(1) by (intro sum.remove) simp_all
  finally have split: "(a + 1) ^ P = (a ^ P + 1) + (\<Sum>k\<in>{..P} - {0} - {P}. c k)"
    using expand by (simp add: c_def)
  have "p dvd (\<Sum>k\<in>{..P} - {0} - {P}. c k)"
  proof (rule dvd_sum)
    fix k assume "k \<in> {..P} - {0} - {P}"
    then have "0 < k" "k < nat p" by (auto simp: P_def)
    with assms have "p dvd int (nat p choose k)" by (rule prime_number_dvd_binomial)
    then show "p dvd c k" by (simp add: c_def P_def)
  qed
  then have "((a ^ P + 1) + (\<Sum>k\<in>{..P} - {0} - {P}. c k)) mod p = (a ^ P + 1) mod p"
    by (metis mod_add_self2 dvd_def mod_mult_self2)
  with split show ?thesis by (simp add: P_def)
qed

lemma fermat_nat:
  assumes "prime_number p"
  shows "int a ^ nat p mod p = int a mod p"
proof (induction a)
  case 0
  from assms have "0 < nat p" by (simp add: prime_number_def)
  then show ?case by (simp add: zero_power)
next
  case (Suc a)
  have "int (Suc a) ^ nat p mod p = (int a + 1) ^ nat p mod p"
    by (simp add: add.commute)
  also have "\<dots> = (int a ^ nat p + 1) mod p"
    using assms by (rule prime_number_power_succ)
  also have "\<dots> = (int a ^ nat p mod p + 1) mod p"
    by (simp add: mod_add_left_eq)
  also have "\<dots> = (int a + 1) mod p"
    by (simp add: Suc.IH mod_add_left_eq)
  finally show ?case by (simp add: add.commute)
qed

lemma fermat_int:
  assumes "prime_number p"
  shows "a ^ nat p mod p = a mod p"
proof -
  have p: "0 < p" using assms by (simp add: prime_number_def)
  then have "0 \<le> a mod p" by simp
  then obtain k where k: "a mod p = int k" by (metis nonneg_int_cases)
  have "a ^ nat p mod p = (a mod p) ^ nat p mod p" by (simp add: power_mod)
  also have "\<dots> = int k mod p" unfolding k using assms by (rule fermat_nat)
  also have "\<dots> = a mod p" by (simp add: k [symmetric])
  finally show ?thesis .
qed

lemma fermat_little:
  assumes "prime_number p" and "\<not> p dvd a"
  shows "a ^ (nat p - 1) mod p = 1"
proof -
  have p: "1 < p" using assms(1) by (simp add: prime_number_def)
  then have P: "nat p = Suc (nat p - 1)" by simp
  have "a ^ nat p mod p = a mod p" using assms(1) by (rule fermat_int)
  then have "p dvd a ^ nat p - a" by (simp add: mod_eq_dvd_iff)
  also have "a ^ nat p - a = a * (a ^ (nat p - 1) - 1)"
    by (subst P) (simp add: algebra_simps)
  finally have "p dvd a \<or> p dvd a ^ (nat p - 1) - 1"
    using assms(1) by (rule prime_number_dvd_mult [rotated])
  with assms(2) have "p dvd a ^ (nat p - 1) - 1" by simp
  then have "a ^ (nat p - 1) mod p = 1 mod p" by (simp add: mod_eq_dvd_iff)
  with p show ?thesis by simp
qed

lemma prime_number_sqrt_1:
  assumes "prime_number p" and "0 \<le> x" and "x < p" and "x * x mod p = 1"
  shows "x = 1 \<or> x = p - 1"
proof -
  have p: "1 < p" using assms(1) by (simp add: prime_number_def)
  from assms(4) p have "x * x mod p = 1 mod p" by simp
  then have "p dvd x * x - 1" by (simp add: mod_eq_dvd_iff)
  also have "x * x - 1 = (x - 1) * (x + 1)" by (simp add: algebra_simps)
  finally have "p dvd x - 1 \<or> p dvd x + 1"
    using assms(1) by (rule prime_number_dvd_mult [rotated])
  then show ?thesis
  proof
    assume d: "p dvd x - 1"
    have "\<not> 0 < x - 1"
    proof
      assume "0 < x - 1"
      then have "\<not> p dvd x - 1" using assms(3) by (intro zdvd_not_zless) simp_all
      with d show False by simp
    qed
    moreover have "x \<noteq> 0" using d p by (auto dest: zdvd_imp_le simp: zdvd1_eq)
    ultimately show ?thesis using assms(2) by simp
  next
    assume "p dvd x + 1"
    moreover have "0 < x + 1" using assms(2) by simp
    ultimately have "p \<le> x + 1" by (rule zdvd_imp_le)
    with assms(3) show ?thesis by simp
  qed
qed

subsection \<open>Miller-Rabin accepts every prime\<close>

lemma is_prime_decompose_returns:
  "0 < d \<Longrightarrow> \<exists>r' d'. is_prime_decompose r d = Some (r', d') \<and> r \<le> r'
      \<and> d' mod 2 = 1 \<and> 0 < d' \<and> d = 2 ^ nat (r' - r) * d'"
proof (induction "nat d" arbitrary: r d rule: less_induct)
  case less
  show ?case
  proof (cases "d mod 2 = 0")
    case False
    then have "d mod 2 = 1" by presburger
    with less.prems False show ?thesis
      by (subst is_prime_decompose.simps) simp
  next
    case True
    with less.prems have "0 < d div 2" "d div 2 < d" by presburger+
    then have half: "0 < d div 2" "nat (d div 2) < nat d" by simp_all
    from less.hyps [OF half(2) half(1), of "r + 1"] obtain r' d' where rec:
      "is_prime_decompose (r + 1) (d div 2) = Some (r', d')" "r + 1 \<le> r'"
      "d' mod 2 = 1" "0 < d'" "d div 2 = 2 ^ nat (r' - (r + 1)) * d'"
      by blast
    have "nat (r' - r) = Suc (nat (r' - (r + 1)))" using rec(2) by simp
    moreover have "d = 2 * (d div 2)" using True by presburger
    ultimately have "d = 2 ^ nat (r' - r) * d'" using rec(5) by simp
    with rec True show ?thesis
      by (subst is_prime_decompose.simps) simp
  qed
qed

lemma modular_exponentiation_square:
  "1 < n \<Longrightarrow> modular_exponentiation x 2 n = Inr (x * x mod n)"
  by (simp add: modular_exponentiation_power power2_eq_square)

lemma is_prime_squarings_prime:
  assumes "prime_number n"
  shows "0 \<le> x \<Longrightarrow> x < n \<Longrightarrow> x \<noteq> 1 \<Longrightarrow> x \<noteq> n - 1 \<Longrightarrow> x ^ (2 ^ Suc j) mod n = 1
           \<Longrightarrow> is_prime_squarings j x n = Inr True"
proof (induction j arbitrary: x)
  case 0
  then have "x * x mod n = 1" by (simp add: power2_eq_square)
  with assms 0 have "x = 1 \<or> x = n - 1" by (intro prime_number_sqrt_1)
  with 0 show ?case by simp
next
  case (Suc j)
  have n: "1 < n" using assms by (rule prime_number_gt_1)
  let ?x' = "x * x mod n"
  have pw: "?x' ^ (2 ^ Suc j) mod n = 1"
  proof -
    have "?x' ^ (2 ^ Suc j) mod n = (x * x) ^ (2 ^ Suc j) mod n" by (simp add: power_mod)
    also have "(x * x) ^ (2 ^ Suc j) = x ^ (2 ^ Suc (Suc j))"
      by (simp add: power_mult [symmetric] power2_eq_square [symmetric])
    finally show ?thesis using Suc.prems(5) by simp
  qed
  show ?case
  proof (cases "?x' = n - 1")
    case True
    with n show ?thesis by (simp add: modular_exponentiation_square)
  next
    case False
    have "?x' \<noteq> 1"
    proof
      assume "?x' = 1"
      with assms Suc.prems(1,2) have "x = 1 \<or> x = n - 1" by (intro prime_number_sqrt_1)
      with Suc.prems(3,4) show False by simp
    qed
    moreover have "0 \<le> ?x'" "?x' < n" using n by simp_all
    ultimately have "is_prime_squarings j ?x' n = Inr True"
      using False pw by (intro Suc.IH)
    with n False show ?thesis by (simp add: modular_exponentiation_square)
  qed
qed

lemma is_prime_rounds_prime:
  assumes "prime_number n" and "3 < n" and "1 \<le> r" and "0 < d"
    and "n - 1 = 2 ^ nat r * d"
  shows "\<exists>rng'. is_prime_rounds k n r d rng = Inr (True, rng')"
proof (induction k arbitrary: rng)
  case 0
  show ?case by simp
next
  case (Suc k)
  have n: "1 < n" using assms(1) by (rule prime_number_gt_1)
  define a where "a = 2 + int (shd rng) mod (n - 2 - 2 + 1)"
  have draw: "randint 2 (n - 2) rng = Inr (a, stl rng)"
    using assms(2) by (simp add: randint_def a_def)
  have "0 \<le> int (shd rng) mod (n - 3)" "int (shd rng) mod (n - 3) < n - 3"
    using assms(2) by simp_all
  then have a: "0 < a" "a < n" by (simp_all add: a_def)
  then have "\<not> n dvd a" by (intro zdvd_not_zless)
  with assms(1) have fermat: "a ^ (nat n - 1) mod n = 1" by (rule fermat_little)
  define x where "x = a ^ nat d mod n"
  have x: "modular_exponentiation a d n = Inr x" "0 \<le> x" "x < n"
    using assms(4) n by (simp_all add: x_def modular_exponentiation_power)
  from Suc.IH [of "stl rng"] obtain rng' where
    rest: "is_prime_rounds k n r d (stl rng) = Inr (True, rng')" by blast
  show ?case
  proof (cases "x = 1 \<or> x = n - 1")
    case True
    with draw x(1) rest show ?thesis by auto
  next
    case False
    have "Suc (nat (r - 1)) = nat r" using assms(3) by simp
    moreover have "x ^ (2 ^ nat r) mod n = 1"
    proof -
      have "x ^ (2 ^ nat r) mod n = (a ^ nat d) ^ (2 ^ nat r) mod n"
        by (simp add: x_def power_mod)
      also have "(a ^ nat d) ^ (2 ^ nat r) = a ^ (2 ^ nat r * nat d)"
        by (simp add: power_mult [symmetric] mult.commute)
      also have "2 ^ nat r * nat d = nat (n - 1)"
        using assms(4,5) by (simp add: nat_mult_distrib nat_power_eq)
      also have "nat (n - 1) = nat n - 1" by simp
      finally show ?thesis using fermat by simp
    qed
    ultimately have "x ^ (2 ^ Suc (nat (r - 1))) mod n = 1" by simp
    with assms(1) x(2,3) False have "is_prime_squarings (nat (r - 1)) x n = Inr True"
      by (intro is_prime_squarings_prime) simp_all
    with draw x(1) rest False show ?thesis by auto
  qed
qed

lemma prime_number_odd:
  assumes "prime_number n" and "3 < n"
  shows "n mod 2 = 1"
proof -
  have "\<not> 2 dvd n"
    using assms by (auto simp: prime_number_def)
  then show ?thesis by presburger
qed

text \<open>
  Claim C10. \<^verbatim>\<open>is_prime\<close> never rejects a prime: for every prime \<open>n\<close>, every number of
  rounds and every sequence of random draws, \<^verbatim>\<open>is_prime(n, k)\<close> returns \<^verbatim>\<open>True\<close>.
\<close>

theorem is_prime_accepts_primes:
  assumes "prime_number n"
  shows "\<exists>rng'. is_prime n k rng = Some (Inr (True, rng'))"
proof (cases "n \<le> 3")
  case True
  with assms show ?thesis by (simp add: is_prime_def prime_number_def)
next
  case False
  then have n: "3 < n" by simp
  with assms have odd: "n mod 2 = 1" by (rule prime_number_odd)
  from n have "0 < n - 1" by simp
  from is_prime_decompose_returns [OF this, of 0] obtain r d where dec:
    "is_prime_decompose 0 (n - 1) = Some (r, d)" "0 \<le> r" "d mod 2 = 1" "0 < d"
    "n - 1 = 2 ^ nat (r - 0) * d"
    by blast
  have "r \<noteq> 0"
  proof
    assume "r = 0"
    with dec(5) have "n - 1 = d" by simp
    with dec(3) odd show False by presburger
  qed
  with dec(2) have r: "1 \<le> r" by simp
  from dec(5) have "n - 1 = 2 ^ nat r * d" by simp
  from is_prime_rounds_prime [OF assms n r dec(4) this, of "nat k" rng]
  obtain rng' where "is_prime_rounds (nat k) n r d rng = Inr (True, rng')" by blast
  with n odd dec(1) show ?thesis by (simp add: is_prime_def)
qed

theorem is_prime_accepts_primes_witness:
  "prime_number 97 \<and> (\<exists>rng'. is_prime 97 5 (sconst 0) = Some (Inr (True, rng')))"
proof -
  have p: "prime_number 97" by code_simp
  from is_prime_accepts_primes [OF p, of 5 "sconst 0"] p show ?thesis by simp
qed

subsection \<open>Correctness of textbook RSA\<close>

lemma prime_number_power_cycle:
  assumes "prime_number p"
  shows "m ^ (1 + t * (nat p - 1)) mod p = m mod p"
proof (cases "p dvd m")
  case True
  then have "p dvd m ^ (1 + t * (nat p - 1))" by simp
  with True show ?thesis by (simp add: mod_eq_0_iff_dvd)
next
  case False
  with assms have one: "m ^ (nat p - 1) mod p = 1" by (rule fermat_little)
  have "m ^ (1 + t * (nat p - 1)) = m * (m ^ (nat p - 1)) ^ t"
    by (simp add: power_mult [symmetric] mult.commute)
  also have "\<dots> mod p = m * ((m ^ (nat p - 1) mod p) ^ t mod p) mod p"
    by (simp add: power_mod mod_mult_right_eq)
  also have "(m ^ (nat p - 1) mod p) ^ t mod p = 1"
    using prime_number_gt_1 [OF assms] by (simp only: one power_one) simp
  finally show ?thesis by simp
qed

lemma prime_number_distinct_coprime:
  assumes "prime_number p" and "prime_number q" and "p \<noteq> q"
  shows "coprime p q"
proof -
  have "\<not> p dvd q"
  proof
    assume "p dvd q"
    with assms(2) prime_number_gt_1 [OF assms(1)] have "p = 1 \<or> p = q"
      by (intro prime_number_divisors) simp_all
    with assms(3) prime_number_gt_1 [OF assms(1)] show False by simp
  qed
  with assms(1) show ?thesis by (rule prime_number_coprime)
qed

lemma rsa_power:
  assumes p: "prime_number p" and q: "prime_number q" and neq: "p \<noteq> q"
    and K: "int K mod ((p - 1) * (q - 1)) = 1"
    and m: "0 \<le> m" "m < p * q"
  shows "m ^ K mod (p * q) = m"
proof -
  have p1: "1 < p" and q1: "1 < q" using p q by (simp_all add: prime_number_def)
  define phi where "phi = (nat p - 1) * (nat q - 1)"
  have phi: "int phi = (p - 1) * (q - 1)"
    using p1 q1 by (simp add: phi_def of_nat_diff)
  have "int K mod int phi = 1" using K phi by simp
  then have "int (K mod phi) = int 1" by (simp add: zmod_int)
  then have Kmod: "K mod phi = 1" by (simp only: of_nat_eq_iff)
  define t where "t = K div phi"
  have Kt: "K = 1 + t * phi"
    using Kmod div_mult_mod_eq [of K phi] by (simp add: t_def)
  have "m ^ K mod p = m mod p"
    using prime_number_power_cycle [OF p, of m "t * (nat q - 1)"]
    by (simp add: Kt phi_def mult.commute mult.left_commute)
  then have dp: "p dvd m ^ K - m" by (simp add: mod_eq_dvd_iff)
  have "m ^ K mod q = m mod q"
    using prime_number_power_cycle [OF q, of m "t * (nat p - 1)"]
    by (simp add: Kt phi_def mult.commute mult.left_commute)
  then have dq: "q dvd m ^ K - m" by (simp add: mod_eq_dvd_iff)
  from p q neq have "coprime p q" by (rule prime_number_distinct_coprime)
  with dp dq have "p * q dvd m ^ K - m" by (rule divides_mult)
  then have "m ^ K mod (p * q) = m mod (p * q)" by (simp add: mod_eq_dvd_iff)
  with m show ?thesis by simp
qed

subsection \<open>What key generation returns\<close>

lemma generate_rsa_keys_exponent_result:
  assumes "generate_rsa_keys_exponent phi rng = Some res"
  shows "\<forall>e rng'. res = Inr (e, rng') \<longrightarrow> 2 \<le> e \<and> e \<le> phi - 1 \<and> gcd e phi = 1"
proof (rule generate_rsa_keys_exponent.raw_induct
    [where P = "\<lambda>phi rng res.
       \<forall>e rng'. res = Inr (e, rng') \<longrightarrow> 2 \<le> e \<and> e \<le> phi - 1 \<and> gcd e phi = 1", OF _ assms])
  fix f :: "int \<Rightarrow> rng \<Rightarrow> (error + int \<times> rng) option" and phi rng res
  assume IH: "\<And>phi rng res. f phi rng = Some res \<Longrightarrow>
      \<forall>e rng'. res = Inr (e, rng') \<longrightarrow> 2 \<le> e \<and> e \<le> phi - 1 \<and> gcd e phi = 1"
  assume run: "(case randint 2 (phi - 1) rng of
        Inl err \<Rightarrow> Some (Inl err)
      | Inr (e, rng') \<Rightarrow>
          if gcd e phi = 1 then Some (Inr (e, rng'))
          else f phi rng') = Some res"
  show "\<forall>e rng'. res = Inr (e, rng') \<longrightarrow> 2 \<le> e \<and> e \<le> phi - 1 \<and> gcd e phi = 1"
  proof (cases "phi - 1 < 2")
    case True
    with run show ?thesis by (auto simp: randint_def)
  next
    case False
    define e0 where "e0 = 2 + int (shd rng) mod (phi - 1 - 2 + 1)"
    have draw: "randint 2 (phi - 1) rng = Inr (e0, stl rng)"
      using False by (simp add: randint_def e0_def)
    have "0 \<le> int (shd rng) mod (phi - 2)" "int (shd rng) mod (phi - 2) < phi - 2"
      using False by simp_all
    then have e0: "2 \<le> e0" "e0 \<le> phi - 1" by (simp_all add: e0_def)
    show ?thesis
    proof (cases "gcd e0 phi = 1")
      case True
      with run draw e0 show ?thesis by auto
    next
      case False
      with run draw have "f phi (stl rng) = Some res" by simp
      then show ?thesis by (rule IH)
    qed
  qed
qed

lemma private_exponent:
  assumes "gcd e phi = 1" and "2 < phi"
    and "explain_extended_gcd frames e phi = Inr (g, x, y, steps)"
  shows "0 \<le> x mod phi \<and> e * (x mod phi) mod phi = 1"
proof -
  have ext: "extended_gcd frames e phi = Inr (g, x, y)"
    using assms(3) by (rule explain_extended_gcd_triple)
  then have bez: "e * x + phi * y = g" by (rule extended_gcd_bezout)
  have "g = gcd e phi"
    using extended_gcd_fst [OF _ ext] assms(2) by simp
  with bez assms(1) have "e * x + phi * y = 1" by simp
  then have "e * x = 1 - phi * y" by simp
  then have "e * x mod phi = 1 mod phi"
    by (metis mod_mult_self1 mult.commute uminus_add_conv_diff add.commute mult_minus_right)
  then have "e * (x mod phi) mod phi = 1"
    using assms(2) by (simp add: mod_mult_right_eq)
  with assms(2) show ?thesis by simp
qed

subsection \<open>Encrypting and decrypting a message\<close>

lemma ord_range: "0 \<le> ord c \<and> ord c \<le> 1114111"
  using Rep_pychar [of c] by (simp add: ord_def)

lemma chr_ord: "chr (ord c) = Inr c"
  using ord_range [of c] by (simp add: chr_def) (simp add: ord_def Rep_pychar_inverse)

lemma encrypt_rsa_power:
  assumes "0 \<le> e" and "1 < n"
  shows "encrypt_rsa message (e, n) = Inr (map (\<lambda>c. ord c ^ nat e mod n) message)"
  using assms by (induction message) (simp_all add: modular_exponentiation_power)

lemma decrypt_rsa_loop_inverse:
  assumes "0 \<le> d" and "1 < n"
    and "\<forall>c \<in> set message. (ord c ^ nat e mod n) ^ nat d mod n = ord c"
  shows "decrypt_rsa_loop (map (\<lambda>c. ord c ^ nat e mod n) message) d n acc = Inr (acc @ message)"
  using assms(3)
proof (induction message arbitrary: acc)
  case Nil
  show ?case by simp
next
  case (Cons c message)
  from Cons.prems have v: "(ord c ^ nat e mod n) ^ nat d mod n = ord c" by simp
  from Cons.prems have "decrypt_rsa_loop (map (\<lambda>c. ord c ^ nat e mod n) message) d n (acc @ [c])
      = Inr ((acc @ [c]) @ message)"
    by (intro Cons.IH) simp
  then show ?case
    using assms(1,2) ord_range [of c]
    by (simp add: modular_exponentiation_power v chr_ord)
qed

lemma generate_rsa_keys_unfold:
  assumes "generate_prime (bits div 2) rng = Some (Inr (p, rng1))"
    and "generate_prime (bits div 2) rng1 = Some (Inr (q, rng2))"
    and "generate_rsa_keys frames bits rng = Some (Inr (((e, n), (d, n')), rng'))"
  shows "n = p * q \<and> n' = p * q \<and> 2 \<le> e \<and> 2 < (p - 1) * (q - 1)
         \<and> 0 \<le> d \<and> e * d mod ((p - 1) * (q - 1)) = 1"
proof -
  define phi where "phi = (p - 1) * (q - 1)"
  from assms obtain res where res: "generate_rsa_keys_exponent phi rng2 = Some res"
    by (cases "generate_rsa_keys_exponent phi rng2")
       (simp_all add: generate_rsa_keys_def Let_def phi_def)
  from assms res obtain e0 rng3 where r: "res = Inr (e0, rng3)"
    by (cases res) (auto simp: generate_rsa_keys_def Let_def phi_def)
  with generate_rsa_keys_exponent_result [OF res]
  have e0: "2 \<le> e0" "e0 \<le> phi - 1" "gcd e0 phi = 1" by simp_all
  then have phi: "2 < phi" by simp
  from assms res r obtain g x y steps
    where ext: "explain_extended_gcd frames e0 phi = Inr (g, x, y, steps)"
    by (cases "explain_extended_gcd frames e0 phi")
       (auto simp: generate_rsa_keys_def Let_def phi_def)
  from private_exponent [OF e0(3) phi ext]
  have x: "0 \<le> x mod phi" "e0 * (x mod phi) mod phi = 1" by simp_all
  from assms res r ext phi x(1)
  have "e = e0" "n = p * q" "n' = p * q" "d = x mod phi"
    by (simp_all add: generate_rsa_keys_def Let_def phi_def [symmetric])
  with e0 phi x show ?thesis by (simp add: phi_def)
qed

text \<open>
  Claim C1 says that decryption undoes encryption for every key pair that
  \<^verbatim>\<open>generate_rsa_keys\<close> returns from two primes. Nothing keeps the two primes apart: with
  4 bits and both candidates drawn as 3, the keys are \<open>(3, 9)\<close> and \<open>(3, 9)\<close>, and the
  character with code point 2, which is below 9, comes back as the one with code point 8.
\<close>

theorem rsa_round_trip_repeated_prime_counterexample:
  "generate_prime (4 div 2) (3 ## 3 ## 7 ## sconst 0) = Some (Inr (3, 3 ## 7 ## sconst 0))
   \<and> generate_prime (4 div 2) (3 ## 7 ## sconst 0) = Some (Inr (3, 7 ## sconst 0))
   \<and> prime_number 3
   \<and> generate_rsa_keys 990 4 (3 ## 3 ## 7 ## sconst 0)
       = Some (Inr (((3, 9), (3, 9)), sconst 0))
   \<and> ord (Abs_pychar 2) < 9
   \<and> encrypt_rsa [Abs_pychar 2] (3, 9) = Inr [8]
   \<and> decrypt_rsa [8] (3, 9) = Inr [Abs_pychar 8]
   \<and> Abs_pychar 8 \<noteq> Abs_pychar 2"
proof -
  have gp: "generate_prime 2 (3 ## s) = Some (Inr (3, s))" for s
    by (subst generate_prime.simps) (simp add: getrandbits_def is_prime_def)
  have g: "gcd (3::int) 4 = 1" by code_simp
  have ex: "generate_rsa_keys_exponent 4 (7 ## s) = Some (Inr (3, s))" for s
    by (subst generate_rsa_keys_exponent.simps) (simp add: randint_def g)
  have "extended_gcd 990 3 4 = Inr (1, - 1, 1)" by code_simp
  moreover have "explain_extended_gcd 990 3 4 \<noteq> Inl ValueError" by code_simp
  ultimately obtain steps where
    ext: "explain_extended_gcd 990 3 4 = Inr (1, - 1, 1, steps)"
    using explain_extended_gcd_cases [of 990 3 4] by auto
  have keys: "generate_rsa_keys 990 4 (3 ## 3 ## 7 ## sconst 0)
      = Some (Inr (((3, 9), (3, 9)), sconst 0))"
    by (simp add: generate_rsa_keys_def gp ex ext Let_def)
  have p: "prime_number 3" by code_simp
  have o: "ord (Abs_pychar 2) = 2" by (simp add: ord_def Abs_pychar_inverse)
  have me: "modular_exponentiation 2 3 9 = Inr 8" by code_simp
  have md: "modular_exponentiation 8 3 9 = Inr 8" by code_simp
  have enc: "encrypt_rsa [Abs_pychar 2] (3, 9) = Inr [8]" by (simp add: o me)
  have dec: "decrypt_rsa [8] (3, 9) = Inr [Abs_pychar 8]"
    by (simp add: decrypt_rsa_def md chr_def)
  have ne: "Abs_pychar 8 \<noteq> Abs_pychar 2" by (simp add: Abs_pychar_inject)
  from gp keys p o enc dec ne show ?thesis by simp
qed

text \<open>
  Claim C1, as the code has it. For every key pair \<open>((e, n), (d, n))\<close> returned by
  \<^verbatim>\<open>generate_rsa_keys\<close> whose two generated factors \<open>p\<close> and \<open>q\<close> are prime and
  different, and every message whose characters all have a code point below \<open>n\<close>,
  \<^verbatim>\<open>decrypt_rsa(encrypt_rsa(message, (e, n)), (d, n))\<close> is the message.
\<close>

theorem rsa_round_trip:
  assumes keys: "generate_rsa_keys frames bits rng = Some (Inr (((e, n), (d, n')), rng'))"
    and p: "generate_prime (bits div 2) rng = Some (Inr (p, rng1))"
    and q: "generate_prime (bits div 2) rng1 = Some (Inr (q, rng2))"
    and primes: "prime_number p" "prime_number q" and distinct: "p \<noteq> q"
    and small: "\<forall>c \<in> set message. ord c < n"
  shows "\<exists>ciphertext. encrypt_rsa message (e, n) = Inr ciphertext
           \<and> decrypt_rsa ciphertext (d, n') = Inr message"
proof -
  from generate_rsa_keys_unfold [OF p q keys]
  have n: "n = p * q" "n' = p * q" and e: "2 \<le> e" and d: "0 \<le> d"
    and ed: "e * d mod ((p - 1) * (q - 1)) = 1" by simp_all
  have n1: "1 < n"
    using prime_number_gt_1 [OF primes(1)] prime_number_gt_1 [OF primes(2)] n(1)
    by (simp add: less_1_mult)
  have K: "int (nat e * nat d) mod ((p - 1) * (q - 1)) = 1"
    using e d ed by simp
  have recover: "\<forall>c \<in> set message. (ord c ^ nat e mod n) ^ nat d mod n = ord c"
  proof
    fix c assume "c \<in> set message"
    with small have c: "0 \<le> ord c" "ord c < p * q" using ord_range [of c] n(1) by simp_all
    have "(ord c ^ nat e mod n) ^ nat d mod n = ord c ^ (nat e * nat d) mod (p * q)"
      by (simp add: power_mod power_mult n(1))
    also have "\<dots> = ord c"
      using primes distinct K c by (rule rsa_power)
    finally show "(ord c ^ nat e mod n) ^ nat d mod n = ord c" .
  qed
  have "encrypt_rsa message (e, n) = Inr (map (\<lambda>c. ord c ^ nat e mod n) message)"
    using e n1 by (intro encrypt_rsa_power) simp_all
  moreover have "decrypt_rsa (map (\<lambda>c. ord c ^ nat e mod n) message) (d, n') = Inr message"
    using decrypt_rsa_loop_inverse [OF d n1 recover, of "[]"] n by (simp add: decrypt_rsa_def)
  ultimately show ?thesis by blast
qed

theorem rsa_round_trip_witness:
  "generate_rsa_keys 990 6 (3 ## 5 ## 0 ## 0 ## 0 ## 0 ## 0 ## 7 ## sconst 0)
     = Some (Inr (((3, 15), (3, 15)), sconst 0))
   \<and> generate_prime (6 div 2) (3 ## 5 ## 0 ## 0 ## 0 ## 0 ## 0 ## 7 ## sconst 0)
     = Some (Inr (3, 5 ## 0 ## 0 ## 0 ## 0 ## 0 ## 7 ## sconst 0))
   \<and> generate_prime (6 div 2) (5 ## 0 ## 0 ## 0 ## 0 ## 0 ## 7 ## sconst 0)
     = Some (Inr (5, 7 ## sconst 0))
   \<and> prime_number 3 \<and> prime_number 5 \<and> (3 :: int) \<noteq> 5
   \<and> ord (Abs_pychar 10) < 15 \<and> ord (Abs_pychar 7) < 15
   \<and> (\<exists>ciphertext. encrypt_rsa [Abs_pychar 10, Abs_pychar 7] (3, 15) = Inr ciphertext
         \<and> decrypt_rsa ciphertext (3, 15) = Inr [Abs_pychar 10, Abs_pychar 7])"
proof -
  have gp3: "generate_prime 3 (3 ## s) = Some (Inr (3, s))" for s
    by (subst generate_prime.simps) (simp add: getrandbits_def is_prime_def)
  have dec: "is_prime_decompose 0 4 = Some (2, 1)" by code_simp
  have m1: "modular_exponentiation 2 1 5 = Inr 2" by code_simp
  have m2: "modular_exponentiation 2 2 5 = Inr 4" by code_simp
  have draw: "randint 2 3 (0 ## s) = Inr (2, s)" for s by (simp add: randint_def)
  have ip5: "is_prime 5 5 (0 ## 0 ## 0 ## 0 ## 0 ## s) = Some (Inr (True, s))" for s
    by (simp add: is_prime_def dec eval_nat_numeral draw m1 m2)
  have gp5: "generate_prime 3 (5 ## 0 ## 0 ## 0 ## 0 ## 0 ## s) = Some (Inr (5, s))" for s
    by (subst generate_prime.simps) (simp add: getrandbits_def ip5)
  have g: "gcd (3::int) 8 = 1" by code_simp
  have ex: "generate_rsa_keys_exponent 8 (7 ## s) = Some (Inr (3, s))" for s
    by (subst generate_rsa_keys_exponent.simps) (simp add: randint_def g)
  have "extended_gcd 990 3 8 = Inr (1, 3, - 1)" by code_simp
  moreover have "explain_extended_gcd 990 3 8 \<noteq> Inl ValueError" by code_simp
  ultimately obtain steps where
    ext: "explain_extended_gcd 990 3 8 = Inr (1, 3, - 1, steps)"
    using explain_extended_gcd_cases [of 990 3 8] by auto
  have keys: "generate_rsa_keys 990 6 (3 ## 5 ## 0 ## 0 ## 0 ## 0 ## 0 ## 7 ## sconst 0)
      = Some (Inr (((3, 15), (3, 15)), sconst 0))"
    by (simp add: generate_rsa_keys_def gp3 gp5 ex ext Let_def)
  have p: "generate_prime (6 div 2) (3 ## 5 ## 0 ## 0 ## 0 ## 0 ## 0 ## 7 ## sconst 0)
      = Some (Inr (3, 5 ## 0 ## 0 ## 0 ## 0 ## 0 ## 7 ## sconst 0))"
    by (simp add: gp3)
  have q: "generate_prime (6 div 2) (5 ## 0 ## 0 ## 0 ## 0 ## 0 ## 7 ## sconst 0)
      = Some (Inr (5, 7 ## sconst 0))"
    by (simp add: gp5)
  have p3: "prime_number 3" and p5: "prime_number 5" by code_simp+
  have o: "ord (Abs_pychar 10) = 10" "ord (Abs_pychar 7) = 7"
    by (simp_all add: ord_def Abs_pychar_inverse)
  then have small: "\<forall>c \<in> set [Abs_pychar 10, Abs_pychar 7]. ord c < 15" by simp
  have "(3 :: int) \<noteq> 5" by simp
  from rsa_round_trip [OF keys p q p3 p5 this small] keys p q p3 p5 o
  show ?thesis by simp
qed

end
